theory Spec2Isabelle
  imports Complex_Main
begin

section \<open>Website crawler and link-graph analyzer\<close>

text \<open>
  A shallow embedding of \<^verbatim>\<open>website_graph.py\<close> (the breadth-first crawler, its
  classifier and its statistics) and of \<^verbatim>\<open>graph_stats\<close> of \<^verbatim>\<open>web_diver.py\<close>.
  Python strings are \<^typ>\<open>string\<close>, Python integers are \<^typ>\<open>int\<close>, exceptions are
  values of \<open>py_exc\<close> on the left of a sum.
\<close>

subsection \<open>String helpers of the Python standard library\<close>

text \<open>\<^verbatim>\<open>s.split('#')[0]\<close>: the part of \<open>s\<close> before the first \<open>#\<close>.\<close>

definition split_hash_head :: "string \<Rightarrow> string" where
  "split_hash_head s = takeWhile (\<lambda>c. c \<noteq> CHR ''#'') s"

text \<open>\<^verbatim>\<open>s.rstrip('/')\<close>: \<open>s\<close> without the slashes at its end, all of them.\<close>

definition rstrip_slash :: "string \<Rightarrow> string" where
  "rstrip_slash s = rev (dropWhile (\<lambda>c. c = CHR ''/'') (rev s))"

text \<open>\<^verbatim>\<open>s.startswith(p)\<close>.\<close>

definition startswith :: "string \<Rightarrow> string \<Rightarrow> bool" where
  "startswith s p = (take (length p) s = p)"

subsection \<open>The outside world\<close>

text \<open>
  What one HTTP request for a page gives to \<^verbatim>\<open>extract_links\<close>:
  \<open>RequestFailed\<close> when \<^verbatim>\<open>requests.get\<close> or \<^verbatim>\<open>raise_for_status\<close> raises (inside the
  \<^verbatim>\<open>try\<close> of \<^verbatim>\<open>extract_links\<close>), \<open>ParseFailed\<close> when an exception is raised after that
  \<^verbatim>\<open>try\<close> (while the page is parsed or a link is joined), and \<open>Anchors hs\<close> when the
  page is parsed, \<open>hs\<close> being the \<^verbatim>\<open>href\<close> attributes of its anchors in document order,
  each already stripped of surrounding white space.
\<close>

datatype response = RequestFailed | ParseFailed | Anchors "string list"

text \<open>
  The functions of \<^verbatim>\<open>urllib\<close>, \<^verbatim>\<open>requests\<close> and \<^verbatim>\<open>urllib.robotparser\<close> that the crawler
  calls are parameters of the model:
  \<^item> \<open>urljoin_rel base url\<close> is \<^verbatim>\<open>urljoin(base, url)\<close> for a non-empty \<open>base\<close> and a
    non-empty \<open>url\<close> (the two empty cases are written out in \<open>urljoin\<close> below);
  \<^item> \<open>url_scheme u\<close> and \<open>url_netloc u\<close> are \<^verbatim>\<open>urlparse(u).scheme\<close> and
    \<^verbatim>\<open>urlparse(u).netloc\<close>;
  \<^item> \<open>url_parses u\<close> tells whether \<^verbatim>\<open>urlparse(u)\<close> returns; it raises \<^verbatim>\<open>ValueError\<close>
    otherwise, as it does on \<^verbatim>\<open>http://[::1\<close>;
  \<^item> \<open>http_get u\<close> is the outcome of requesting and parsing the page at \<open>u\<close>;
  \<^item> \<open>robots_can_fetch u\<close> is \<open>Some b\<close> when robots.txt of the host of \<open>u\<close> was read
    and \<^verbatim>\<open>can_fetch\<close> answered \<open>b\<close>, and \<open>None\<close> when anything raised on the way.
\<close>

record world =
  urljoin_rel :: "string \<Rightarrow> string \<Rightarrow> string"
  url_scheme :: "string \<Rightarrow> string"
  url_netloc :: "string \<Rightarrow> string"
  url_parses :: "string \<Rightarrow> bool"
  http_get :: "string \<Rightarrow> response"
  robots_can_fetch :: "string \<Rightarrow> bool option"

datatype py_exc =
  ValueError
  | PageError
  | NetworkXError
  | NetworkXPointlessConcept
  | NetworkXNotImplemented
  | ZeroDivisionError

text \<open>
  \<^verbatim>\<open>urllib.parse.urljoin\<close> begins with \<^verbatim>\<open>if not base: return url\<close> and
  \<^verbatim>\<open>if not url: return base\<close>; only then are the two arguments parsed and joined.
\<close>

definition urljoin :: "world \<Rightarrow> string \<Rightarrow> string \<Rightarrow> string" where
  "urljoin w base url =
     (if base = [] then url else if url = [] then base else urljoin_rel w base url)"

subsection \<open>URL helpers of \<^verbatim>\<open>website_graph.py\<close>\<close>

definition is_valid_scheme :: "world \<Rightarrow> string \<Rightarrow> bool" where
  "is_valid_scheme w url = (url_scheme w url \<in> {''http'', ''https''})"

definition normalize_url :: "world \<Rightarrow> string \<Rightarrow> string \<Rightarrow> string" where
  "normalize_url w base link =
     (let joined = urljoin w base (split_hash_head link) in rstrip_slash joined)"

definition skipped_href :: "string \<Rightarrow> bool" where
  "skipped_href href =
     (startswith href ''mailto:'' \<or> startswith href ''javascript:'' \<or> startswith href ''tel:'')"

definition extract_links :: "world \<Rightarrow> string \<Rightarrow> py_exc + string list" where
  "extract_links w url =
     (case http_get w url of
        RequestFailed \<Rightarrow> Inr []
      | ParseFailed \<Rightarrow> Inl PageError
      | Anchors hrefs \<Rightarrow>
          Inr (map (normalize_url w url) (filter (\<lambda>href. \<not> skipped_href href) hrefs)))"

definition allowed_by_robots :: "world \<Rightarrow> string \<Rightarrow> bool" where
  "allowed_by_robots w url = (case robots_can_fetch w url of None \<Rightarrow> True | Some b \<Rightarrow> b)"

subsection \<open>The graph of \<^verbatim>\<open>networkx\<close>\<close>

text \<open>
  A \<^verbatim>\<open>networkx\<close> graph keeps its nodes and its edges in insertion order, each once.
  \<open>directed\<close> tells \<^verbatim>\<open>nx.DiGraph\<close> from \<^verbatim>\<open>nx.Graph\<close>; an edge of an undirected graph is
  stored as the pair it was added with and stands for both directions.
\<close>

record graph =
  directed :: bool
  nodes :: "string list"
  edges :: "(string \<times> string) list"

definition DiGraph :: graph where
  "DiGraph = \<lparr>directed = True, nodes = [], edges = []\<rparr>"

definition Graph :: graph where
  "Graph = \<lparr>directed = False, nodes = [], edges = []\<rparr>"

definition has_edge :: "graph \<Rightarrow> string \<Rightarrow> string \<Rightarrow> bool" where
  "has_edge g u v =
     ((u, v) \<in> set (edges g) \<or> (\<not> directed g \<and> (v, u) \<in> set (edges g)))"

definition add_node :: "string \<Rightarrow> graph \<Rightarrow> graph" where
  "add_node u g = (if u \<in> set (nodes g) then g else g\<lparr>nodes := nodes g @ [u]\<rparr>)"

definition add_edge :: "string \<Rightarrow> string \<Rightarrow> graph \<Rightarrow> graph" where
  "add_edge u v g =
     (let g' = add_node v (add_node u g)
      in if has_edge g' u v then g' else g'\<lparr>edges := edges g' @ [(u, v)]\<rparr>)"

definition number_of_nodes :: "graph \<Rightarrow> nat" where
  "number_of_nodes g = length (nodes g)"

definition number_of_edges :: "graph \<Rightarrow> nat" where
  "number_of_edges g = length (edges g)"

subsection \<open>The crawl loop of \<^verbatim>\<open>build_website_graph\<close>\<close>

text \<open>
  The keyword arguments of \<^verbatim>\<open>build_website_graph\<close>. The argument \<^verbatim>\<open>delay\<close> is only
  passed to \<^verbatim>\<open>time.sleep\<close> and has no part in the result.
\<close>

record config =
  max_pages :: int
  max_depth :: int
  same_domain :: bool

text \<open>
  The local variables of the loop: \<^verbatim>\<open>G\<close>, \<^verbatim>\<open>seen\<close>, \<^verbatim>\<open>q\<close> and \<^verbatim>\<open>pages_crawled\<close>.
\<close>

record crawl_state =
  st_G :: graph
  st_seen :: "string set"
  st_q :: "(string \<times> int) list"
  st_pages_crawled :: int

text \<open>One round of \<^verbatim>\<open>for link in links\<close>, for the page \<open>url\<close> dequeued at \<open>depth\<close>.\<close>

definition visit_link ::
  "world \<Rightarrow> config \<Rightarrow> string \<Rightarrow> string \<Rightarrow> int \<Rightarrow> string \<Rightarrow> crawl_state \<Rightarrow> crawl_state" where
  "visit_link w c domain url depth link s =
     (if \<not> is_valid_scheme w link then s
      else if same_domain c \<and> url_netloc w link \<noteq> domain then s
      else
        let s' = s\<lparr>st_G := add_edge url link (st_G s)\<rparr>
        in if link \<notin> st_seen s' \<and> depth + 1 \<le> max_depth c
                \<and> st_pages_crawled s' < max_pages c
           then s'\<lparr>st_seen := insert link (st_seen s'), st_q := st_q s' @ [(link, depth + 1)]\<rparr>
           else s')"

text \<open>
  \<^verbatim>\<open>try: links = extract_links(url)\<close> with \<^verbatim>\<open>except Exception: links = []\<close>.
\<close>

definition try_extract_links :: "world \<Rightarrow> string \<Rightarrow> string list" where
  "try_extract_links w url = (case extract_links w url of Inl e \<Rightarrow> [] | Inr links \<Rightarrow> links)"

text \<open>
  The body of the \<^verbatim>\<open>while\<close> loop after \<^verbatim>\<open>url, depth = q.popleft()\<close>; \<open>s\<close> is the state
  with the entry already taken off the queue.
\<close>

definition crawl_body ::
  "world \<Rightarrow> config \<Rightarrow> string \<Rightarrow> string \<Rightarrow> int \<Rightarrow> crawl_state \<Rightarrow> crawl_state" where
  "crawl_body w c domain url depth s =
     (if depth > max_depth c then s
      else if \<not> allowed_by_robots w url then s
      else
        let links = try_extract_links w url;
            s' = s\<lparr>st_pages_crawled := st_pages_crawled s + 1,
                   st_G := add_node url (st_G s)\<rparr>
        in fold (visit_link w c domain url depth) links s')"

text \<open>\<^verbatim>\<open>while q and pages_crawled < max_pages\<close>.\<close>

function crawl_loop :: "world \<Rightarrow> config \<Rightarrow> string \<Rightarrow> crawl_state \<Rightarrow> crawl_state" where
  "crawl_loop w c domain s =
     (case st_q s of
        [] \<Rightarrow> s
      | (url, depth) # rest \<Rightarrow>
          if st_pages_crawled s < max_pages c
          then crawl_loop w c domain (crawl_body w c domain url depth (s\<lparr>st_q := rest\<rparr>))
          else s)"
  by pat_completeness auto

text \<open>The state before the first test of the loop condition.\<close>

definition initial_state :: "string \<Rightarrow> crawl_state" where
  "initial_state start_url =
     \<lparr>st_G = DiGraph, st_seen = {start_url}, st_q = [(start_url, 0)], st_pages_crawled = 0\<rparr>"

text \<open>
  The run of the loop of \<^verbatim>\<open>build_website_graph\<close> from the state that its first lines set
  up, and the graph at the end of that run.
\<close>

definition crawl_run :: "world \<Rightarrow> string \<Rightarrow> config \<Rightarrow> crawl_state" where
  "crawl_run w start_url c =
     (let start_url' = normalize_url w start_url [];
          domain = url_netloc w start_url'
      in crawl_loop w c domain (initial_state start_url'))"

definition crawl_graph :: "world \<Rightarrow> string \<Rightarrow> config \<Rightarrow> graph" where
  "crawl_graph w start_url c = st_G (crawl_run w start_url c)"

text \<open>
  \<^verbatim>\<open>build_website_graph\<close>. Its second line, \<^verbatim>\<open>parsed_start = urlparse(start_url)\<close>, stands
  outside every \<^verbatim>\<open>try\<close>: when \<^verbatim>\<open>urlparse\<close> raises on the normalized seed, the call raises
  \<^verbatim>\<open>ValueError\<close> before the loop starts. Otherwise the call returns the graph of the run.
  In the loop, \<^verbatim>\<open>urlparse\<close> is applied to links only, which \<^verbatim>\<open>urljoin\<close> has parsed before
  inside \<^verbatim>\<open>extract_links\<close>, where an exception makes \<open>ParseFailed\<close>.
\<close>

definition build_website_graph :: "world \<Rightarrow> string \<Rightarrow> config \<Rightarrow> py_exc + graph" where
  "build_website_graph w start_url c =
     (let start_url' = normalize_url w start_url []
      in if url_parses w start_url' then Inr (crawl_graph w start_url c) else Inl ValueError)"

subsection \<open>The history of a run\<close>

text \<open>
  The states in which the loop condition is tested, first to last, by the recursion of
  \<open>crawl_loop\<close>.
\<close>

function crawl_states :: "world \<Rightarrow> config \<Rightarrow> string \<Rightarrow> crawl_state \<Rightarrow> crawl_state list" where
  "crawl_states w c domain s =
     s # (case st_q s of
            [] \<Rightarrow> []
          | (url, depth) # rest \<Rightarrow>
              if st_pages_crawled s < max_pages c
              then crawl_states w c domain (crawl_body w c domain url depth (s\<lparr>st_q := rest\<rparr>))
              else [])"
  by pat_completeness auto

text \<open>
  The entries appended to the queue (\<^verbatim>\<open>q.append\<close>) during the run from \<open>s\<close> on, in the
  order of the calls: a round that starts with \<open>rest\<close> left in the queue appends what
  its final queue holds beyond \<open>rest\<close>.
\<close>

function enqueue_log ::
  "world \<Rightarrow> config \<Rightarrow> string \<Rightarrow> crawl_state \<Rightarrow> (string \<times> int) list" where
  "enqueue_log w c domain s =
     (case st_q s of
        [] \<Rightarrow> []
      | (url, depth) # rest \<Rightarrow>
          if st_pages_crawled s < max_pages c
          then
            let s' = crawl_body w c domain url depth (s\<lparr>st_q := rest\<rparr>)
            in drop (length rest) (st_q s') @ enqueue_log w c domain s'
          else [])"
  by pat_completeness auto

text \<open>
  The pages crawled during the run from \<open>s\<close> on: the dequeued URLs that pass the depth
  test and the robots test, for which \<^verbatim>\<open>pages_crawled += 1\<close> and \<^verbatim>\<open>G.add_node(url)\<close> run.
\<close>

function crawled_log :: "world \<Rightarrow> config \<Rightarrow> string \<Rightarrow> crawl_state \<Rightarrow> string list" where
  "crawled_log w c domain s =
     (case st_q s of
        [] \<Rightarrow> []
      | (url, depth) # rest \<Rightarrow>
          if st_pages_crawled s < max_pages c
          then
            (if depth > max_depth c \<or> \<not> allowed_by_robots w url then [] else [url])
            @ crawled_log w c domain (crawl_body w c domain url depth (s\<lparr>st_q := rest\<rparr>))
          else [])"
  by pat_completeness auto

text \<open>The histories of the run of the loop that \<open>build_website_graph\<close> makes.\<close>

definition run_states :: "world \<Rightarrow> string \<Rightarrow> config \<Rightarrow> crawl_state list" where
  "run_states w start_url c =
     (let start_url' = normalize_url w start_url [];
          domain = url_netloc w start_url'
      in crawl_states w c domain (initial_state start_url'))"

definition run_enqueued :: "world \<Rightarrow> string \<Rightarrow> config \<Rightarrow> (string \<times> int) list" where
  "run_enqueued w start_url c =
     (let start_url' = normalize_url w start_url [];
          domain = url_netloc w start_url';
          s = initial_state start_url'
      in st_q s @ enqueue_log w c domain s)"

definition run_crawled :: "world \<Rightarrow> string \<Rightarrow> config \<Rightarrow> string list" where
  "run_crawled w start_url c =
     (let start_url' = normalize_url w start_url [];
          domain = url_netloc w start_url'
      in crawled_log w c domain (initial_state start_url'))"

text \<open>
  Two worlds give the same answers on the URLs of \<open>S\<close>: the same links for each page and
  the same robots verdict, with the same \<^verbatim>\<open>urlparse\<close>.
\<close>

definition same_answers :: "string set \<Rightarrow> world \<Rightarrow> world \<Rightarrow> bool" where
  "same_answers S w1 w2 =
     (url_scheme w1 = url_scheme w2 \<and> url_netloc w1 = url_netloc w2
      \<and> (\<forall>u\<in>S. try_extract_links w1 u = try_extract_links w2 u
                \<and> allowed_by_robots w1 u = allowed_by_robots w2 u))"

subsection \<open>Connectivity as \<^verbatim>\<open>networkx\<close> decides it\<close>

text \<open>
  \<^verbatim>\<open>nx.is_strongly_connected\<close>, \<^verbatim>\<open>nx.is_weakly_connected\<close> and \<^verbatim>\<open>nx.is_connected\<close> raise
  \<^verbatim>\<open>NetworkXNotImplemented\<close> on the wrong kind of graph and \<^verbatim>\<open>NetworkXPointlessConcept\<close>
  on the graph with no nodes; both exceptions derive from \<^verbatim>\<open>NetworkXException\<close> and
  neither is a \<^verbatim>\<open>NetworkXError\<close>.
\<close>

definition nx_is_strongly_connected :: "graph \<Rightarrow> py_exc + bool" where
  "nx_is_strongly_connected g =
     (if \<not> directed g then Inl NetworkXNotImplemented
      else if nodes g = [] then Inl NetworkXPointlessConcept
      else Inr (\<forall>u\<in>set (nodes g). \<forall>v\<in>set (nodes g). (u, v) \<in> (set (edges g))\<^sup>*))"

definition nx_is_weakly_connected :: "graph \<Rightarrow> py_exc + bool" where
  "nx_is_weakly_connected g =
     (if \<not> directed g then Inl NetworkXNotImplemented
      else if nodes g = [] then Inl NetworkXPointlessConcept
      else Inr (\<forall>u\<in>set (nodes g). \<forall>v\<in>set (nodes g).
                  (u, v) \<in> (set (edges g) \<union> (set (edges g))\<inverse>)\<^sup>*))"

definition nx_is_connected :: "graph \<Rightarrow> py_exc + bool" where
  "nx_is_connected g =
     (if directed g then Inl NetworkXNotImplemented
      else if nodes g = [] then Inl NetworkXPointlessConcept
      else Inr (\<forall>u\<in>set (nodes g). \<forall>v\<in>set (nodes g).
                  (u, v) \<in> (set (edges g) \<union> (set (edges g))\<inverse>)\<^sup>*))"

text \<open>
  The other \<^verbatim>\<open>networkx\<close> tests are parameters; the code calls them on undirected graphs
  with at least one node only, where they answer without raising.
\<close>

record nx_lib =
  is_tree :: "graph \<Rightarrow> bool"
  is_bipartite :: "graph \<Rightarrow> bool"
  cycle_basis :: "graph \<Rightarrow> string list list"

subsection \<open>\<^verbatim>\<open>classify_graph\<close> and \<^verbatim>\<open>graph_stats\<close> of \<^verbatim>\<open>website_graph.py\<close>\<close>

text \<open>The \<^verbatim>\<open>try\<close> block of the directed branch.\<close>

definition classify_directed :: "graph \<Rightarrow> py_exc + string" where
  "classify_directed g =
     (case nx_is_strongly_connected g of
        Inl e \<Rightarrow> Inl e
      | Inr True \<Rightarrow> Inr ''Strongly Connected Directed Graph''
      | Inr False \<Rightarrow>
          (case nx_is_weakly_connected g of
             Inl e \<Rightarrow> Inl e
           | Inr True \<Rightarrow> Inr ''Weakly Connected Directed Graph''
           | Inr False \<Rightarrow> Inr ''Disconnected Directed Graph''))"

text \<open>
  \<^verbatim>\<open>except nx.NetworkXError\<close> catches that exception and lets every other one pass.
\<close>

definition classify_graph :: "nx_lib \<Rightarrow> graph \<Rightarrow> py_exc + string" where
  "classify_graph lib g =
     (if directed g then
        (case classify_directed g of
           Inl NetworkXError \<Rightarrow> Inr ''Directed Graph (connectivity not determined)''
         | Inl e \<Rightarrow> Inl e
         | Inr label \<Rightarrow> Inr label)
      else if length (nodes g) = 0 then Inr ''Empty Graph''
      else
        (case nx_is_connected g of
           Inl e \<Rightarrow> Inl e
         | Inr True \<Rightarrow>
             if is_tree lib g then Inr ''Tree''
             else if is_bipartite lib g then Inr ''Bipartite Connected Graph''
             else Inr ''Connected Graph''
         | Inr False \<Rightarrow>
             if cycle_basis lib g \<noteq> [] then Inr ''Cyclic Graph'' else Inr ''Acyclic Graph''))"

text \<open>
  \<^verbatim>\<open>G.degree()\<close>: for a directed graph in-degree plus out-degree, for an undirected one
  the number of edges at the node, a self-loop counting twice; both count the pairs that
  start at the node and the pairs that end there.
\<close>

definition degree :: "graph \<Rightarrow> string \<Rightarrow> nat" where
  "degree g u =
     length (filter (\<lambda>e. fst e = u) (edges g)) + length (filter (\<lambda>e. snd e = u) (edges g))"

definition sum_of_degrees :: "graph \<Rightarrow> nat" where
  "sum_of_degrees g = sum_list (map (degree g) (nodes g))"

text \<open>
  The dictionary that \<^verbatim>\<open>graph_stats\<close> returns. Python's \<^verbatim>\<open>/\<close> is a division of floats; the
  model keeps the exact quotient.
\<close>

record stats =
  classification :: string
  stat_nodes :: nat
  stat_edges :: nat
  average_degree :: rat

definition graph_stats :: "nx_lib \<Rightarrow> graph \<Rightarrow> py_exc + stats" where
  "graph_stats lib g =
     (let n = number_of_nodes g;
          m = number_of_edges g;
          avg_deg = (if n \<noteq> 0 then of_nat (sum_of_degrees g) / of_nat n else 0)
      in case classify_graph lib g of
           Inl e \<Rightarrow> Inl e
         | Inr label \<Rightarrow>
             Inr \<lparr>classification = label, stat_nodes = n, stat_edges = m,
                  average_degree = avg_deg\<rparr>)"

subsection \<open>\<^verbatim>\<open>classify_graph\<close> and \<^verbatim>\<open>graph_stats\<close> of \<^verbatim>\<open>web_diver.py\<close>\<close>

text \<open>
  \<^verbatim>\<open>classify_graph\<close> of \<^verbatim>\<open>web_diver.py\<close> calls \<^verbatim>\<open>nx.is_connected\<close> before anything else that
  can raise, and looks at the kind of graph afterwards.
\<close>

definition wd_classify_graph :: "nx_lib \<Rightarrow> graph \<Rightarrow> py_exc + string" where
  "wd_classify_graph lib g =
     (case nx_is_connected g of
        Inl e \<Rightarrow> Inl e
      | Inr is_connected \<Rightarrow>
          if directed g then classify_directed g
          else if is_connected then
            (if is_bipartite lib g then Inr ''Bipartite Connected Graph''
             else if is_tree lib g then Inr ''Tree''
             else Inr ''Connected Forest Graph'')
          else if length (cycle_basis lib g) > 0 then Inr ''Cyclic Graph''
          else Inr ''Acyclical Graph'')"

text \<open>Python's \<^verbatim>\<open>a / b\<close> on integers.\<close>

definition py_truediv :: "nat \<Rightarrow> nat \<Rightarrow> py_exc + rat" where
  "py_truediv a b = (if b = 0 then Inl ZeroDivisionError else Inr (of_nat a / of_nat b))"

text \<open>
  \<^verbatim>\<open>graph_stats\<close> of \<^verbatim>\<open>web_diver.py\<close> returns the classification and a table of the three
  metrics; the model returns them in a \<open>stats\<close> record.
\<close>

definition wd_graph_stats :: "nx_lib \<Rightarrow> graph \<Rightarrow> py_exc + stats" where
  "wd_graph_stats lib g =
     (case wd_classify_graph lib g of
        Inl e \<Rightarrow> Inl e
      | Inr label \<Rightarrow>
          (case py_truediv (sum_of_degrees g) (length (nodes g)) of
             Inl e \<Rightarrow> Inl e
           | Inr avg \<Rightarrow>
               Inr \<lparr>classification = label, stat_nodes = length (nodes g),
                    stat_edges = length (edges g), average_degree = avg\<rparr>))"

subsection \<open>Worlds for the examples\<close>

text \<open>
  The URLs of the examples have the form \<^verbatim>\<open>scheme://host/path\<close>, and every link of
  their pages is such a URL. For these, \<^verbatim>\<open>urlparse\<close> finds the scheme before the first
  colon and the network location between \<^verbatim>\<open>//\<close> and the next slash, and \<^verbatim>\<open>urljoin\<close>
  returns the link itself. \<^verbatim>\<open>urlparse\<close> raises \<^verbatim>\<open>ValueError\<close> when the network location
  holds one of the brackets \<^verbatim>\<open>[\<close> and \<^verbatim>\<open>]\<close> without the other.
\<close>

definition simple_scheme :: "string \<Rightarrow> string" where
  "simple_scheme u = takeWhile (\<lambda>c. c \<noteq> CHR '':'') u"

definition simple_netloc :: "string \<Rightarrow> string" where
  "simple_netloc u =
     takeWhile (\<lambda>c. c \<noteq> CHR ''/'') (drop 2 (dropWhile (\<lambda>c. c \<noteq> CHR ''/'') u))"

definition simple_parses :: "string \<Rightarrow> bool" where
  "simple_parses u =
     ((CHR ''['' \<in> set (simple_netloc u)) = (CHR '']'' \<in> set (simple_netloc u)))"

definition absolute_world ::
  "(string \<Rightarrow> response) \<Rightarrow> (string \<Rightarrow> bool option) \<Rightarrow> world" where
  "absolute_world get rb =
     \<lparr>urljoin_rel = (\<lambda>base url. url), url_scheme = simple_scheme,
      url_netloc = simple_netloc, url_parses = simple_parses, http_get = get,
      robots_can_fetch = rb\<rparr>"

text \<open>No page can be requested and no robots.txt can be read.\<close>

definition offline :: world where
  "offline = absolute_world (\<lambda>u. RequestFailed) (\<lambda>u. None)"

text \<open>One page with two links; robots.txt cannot be read.\<close>

definition two_links :: world where
  "two_links =
     absolute_world
       (\<lambda>u. if u = ''http://a.com'' then Anchors [''http://a.com/b'', ''http://a.com/c'']
            else RequestFailed)
       (\<lambda>u. None)"

text \<open>Three pages that all link to one another, the first one twice to the second.\<close>

definition triangle :: world where
  "triangle =
     absolute_world
       (\<lambda>u. if u = ''http://a.com'' then Anchors [''http://a.com/b'', ''http://a.com/c'', ''http://a.com/b'']
            else if u = ''http://a.com/b'' then Anchors [''http://a.com'', ''http://a.com/c'']
            else if u = ''http://a.com/c'' then Anchors [''http://a.com/'', ''http://a.com/b'']
            else RequestFailed)
       (\<lambda>u. None)"

text \<open>One page that links to another host, to its own host and to a mail address.\<close>

definition two_hosts :: world where
  "two_hosts =
     absolute_world
       (\<lambda>u. if u = ''http://a.com'' then Anchors [''http://b.org/x'', ''http://a.com/c'', ''mailto:me@a.com'']
            else RequestFailed)
       (\<lambda>u. None)"

text \<open>A page, requested with a fragment, that links to an anchor of its own, to itself and to another page.\<close>

definition anchor_page :: world where
  "anchor_page =
     absolute_world
       (\<lambda>u. if u = ''http://a.com/p#f''
            then Anchors [''#top'', ''http://a.com/p#f'', ''http://a.com/q#x'']
            else RequestFailed)
       (\<lambda>u. None)"

text \<open>robots.txt forbids every URL.\<close>

definition blocked :: world where
  "blocked =
     absolute_world (\<lambda>u. Anchors [''http://a.com/b'']) (\<lambda>u. Some False)"

text \<open>The world of \<open>two_links\<close> with another page and another robots.txt on another host.\<close>

definition two_links_elsewhere :: world where
  "two_links_elsewhere =
     absolute_world
       (\<lambda>u. if u = ''http://a.com'' then Anchors [''http://a.com/b'', ''http://a.com/c'']
            else if u = ''http://z.org'' then Anchors [''http://z.org/y'']
            else RequestFailed)
       (\<lambda>u. if u = ''http://z.org'' then Some False else None)"

text \<open>
  The graph of the crawler is directed, and \<open>classify_graph\<close> does not consult the tests
  of \<open>nx_lib\<close> on a directed graph: the examples pass tests that answer nothing.
\<close>

definition no_lib :: nx_lib where
  "no_lib = \<lparr>is_tree = (\<lambda>g. False), is_bipartite = (\<lambda>g. False), cycle_basis = (\<lambda>g. [])\<rparr>"

text \<open>Budgets for the examples.\<close>

definition shallow :: config where
  "shallow = \<lparr>max_pages = 5, max_depth = 1, same_domain = True\<rparr>"

definition roomy :: config where
  "roomy = \<lparr>max_pages = 5, max_depth = 2, same_domain = True\<rparr>"

definition one_page :: config where
  "one_page = \<lparr>max_pages = 1, max_depth = 2, same_domain = True\<rparr>"

section \<open>Properties\<close>

subsection \<open>The loop stops\<close>

lemma visit_link_pages_crawled:
  "st_pages_crawled (visit_link w c domain url depth link s) = st_pages_crawled s"
  by (simp add: visit_link_def Let_def)

lemma fold_visit_link_pages_crawled:
  "st_pages_crawled (fold (visit_link w c domain url depth) links s) = st_pages_crawled s"
  by (induction links arbitrary: s) (simp_all add: visit_link_pages_crawled)

lemma crawl_body_pages_crawled:
  "st_pages_crawled (crawl_body w c domain url depth s) =
     (if depth > max_depth c \<or> \<not> allowed_by_robots w url then st_pages_crawled s
      else st_pages_crawled s + 1)"
  by (simp add: crawl_body_def Let_def fold_visit_link_pages_crawled)

lemma crawl_body_skip:
  "depth > max_depth c \<or> \<not> allowed_by_robots w url \<Longrightarrow> crawl_body w c domain url depth s = s"
  by (auto simp: crawl_body_def)

text \<open>
  Every round either crawls a page, which uses up one unit of the page budget, or only
  takes an entry off the queue.
\<close>

definition crawl_rel :: "((world \<times> config \<times> string \<times> crawl_state) \<times>
                          (world \<times> config \<times> string \<times> crawl_state)) set" where
  "crawl_rel =
     measures [\<lambda>(w, c, domain, s). nat (max_pages c - st_pages_crawled s),
               \<lambda>(w, c, domain, s). length (st_q s)]"

lemma wf_crawl_rel: "wf crawl_rel"
  by (simp add: crawl_rel_def)

lemma crawl_body_decreases:
  assumes q: "st_q s = (url, depth) # rest"
    and lt: "st_pages_crawled s < max_pages c"
  shows "((w, c, domain, crawl_body w c domain url depth (s\<lparr>st_q := rest\<rparr>)),
          (w, c, domain, s)) \<in> crawl_rel"
proof (cases "depth > max_depth c \<or> \<not> allowed_by_robots w url")
  case True
  then have "crawl_body w c domain url depth (s\<lparr>st_q := rest\<rparr>) = s\<lparr>st_q := rest\<rparr>"
    by (rule crawl_body_skip)
  then show ?thesis using q by (simp add: crawl_rel_def)
next
  case False
  then have "st_pages_crawled (crawl_body w c domain url depth (s\<lparr>st_q := rest\<rparr>))
      = st_pages_crawled s + 1"
    by (simp add: crawl_body_pages_crawled)
  then show ?thesis using lt by (simp add: crawl_rel_def)
qed

termination crawl_loop
  by (relation crawl_rel) (auto simp: wf_crawl_rel intro: crawl_body_decreases)

termination crawl_states
  by (relation crawl_rel) (auto simp: wf_crawl_rel intro: crawl_body_decreases)

termination enqueue_log
  by (relation crawl_rel) (auto simp: wf_crawl_rel intro: crawl_body_decreases)

termination crawled_log
  by (relation crawl_rel) (auto simp: wf_crawl_rel intro: crawl_body_decreases)

declare crawl_loop.simps [simp del]
declare crawl_states.simps [simp del]
declare enqueue_log.simps [simp del]
declare crawled_log.simps [simp del]

subsection \<open>Unfolding the loop\<close>

lemma crawl_loop_stop:
  "st_q s = [] \<or> \<not> st_pages_crawled s < max_pages c \<Longrightarrow> crawl_loop w c domain s = s"
  by (auto simp: crawl_loop.simps [of w c domain s] split: list.splits)

lemma crawl_loop_step:
  "st_q s = (url, depth) # rest \<Longrightarrow> st_pages_crawled s < max_pages c \<Longrightarrow>
   crawl_loop w c domain s
     = crawl_loop w c domain (crawl_body w c domain url depth (s\<lparr>st_q := rest\<rparr>))"
  by (simp add: crawl_loop.simps [of w c domain s])

lemma crawl_states_stop:
  "st_q s = [] \<or> \<not> st_pages_crawled s < max_pages c \<Longrightarrow> crawl_states w c domain s = [s]"
  by (auto simp: crawl_states.simps [of w c domain s] split: list.splits)

lemma crawl_states_step:
  "st_q s = (url, depth) # rest \<Longrightarrow> st_pages_crawled s < max_pages c \<Longrightarrow>
   crawl_states w c domain s
     = s # crawl_states w c domain (crawl_body w c domain url depth (s\<lparr>st_q := rest\<rparr>))"
  by (simp add: crawl_states.simps [of w c domain s])

lemma enqueue_log_stop:
  "st_q s = [] \<or> \<not> st_pages_crawled s < max_pages c \<Longrightarrow> enqueue_log w c domain s = []"
  by (auto simp: enqueue_log.simps [of w c domain s] split: list.splits)

lemma enqueue_log_step:
  "st_q s = (url, depth) # rest \<Longrightarrow> st_pages_crawled s < max_pages c \<Longrightarrow>
   enqueue_log w c domain s
     = drop (length rest) (st_q (crawl_body w c domain url depth (s\<lparr>st_q := rest\<rparr>)))
       @ enqueue_log w c domain (crawl_body w c domain url depth (s\<lparr>st_q := rest\<rparr>))"
  by (simp add: enqueue_log.simps [of w c domain s] Let_def)

lemma crawled_log_stop:
  "st_q s = [] \<or> \<not> st_pages_crawled s < max_pages c \<Longrightarrow> crawled_log w c domain s = []"
  by (auto simp: crawled_log.simps [of w c domain s] split: list.splits)

lemma crawled_log_step:
  "st_q s = (url, depth) # rest \<Longrightarrow> st_pages_crawled s < max_pages c \<Longrightarrow>
   crawled_log w c domain s
     = (if depth > max_depth c \<or> \<not> allowed_by_robots w url then [] else [url])
       @ crawled_log w c domain (crawl_body w c domain url depth (s\<lparr>st_q := rest\<rparr>))"
  by (simp add: crawled_log.simps [of w c domain s])

lemma crawl_induct [case_names stop step]:
  assumes stop: "\<And>s. st_q s = [] \<or> \<not> st_pages_crawled s < max_pages c \<Longrightarrow> P s"
    and step: "\<And>s url depth rest. st_q s = (url, depth) # rest
            \<Longrightarrow> st_pages_crawled s < max_pages c
            \<Longrightarrow> P (crawl_body w c domain url depth (s\<lparr>st_q := rest\<rparr>)) \<Longrightarrow> P s"
  shows "P s"
  using assms
proof (induction w c domain s rule: crawl_loop.induct)
  case (1 w c domain s)
  show ?case
  proof (cases "st_q s = [] \<or> \<not> st_pages_crawled s < max_pages c")
    case True
    then show ?thesis by (rule "1.prems"(1))
  next
    case False
    then obtain url depth rest where q: "st_q s = (url, depth) # rest"
      by (cases "st_q s") auto
    from False have lt: "st_pages_crawled s < max_pages c" by simp
    have "P (crawl_body w c domain url depth (s\<lparr>st_q := rest\<rparr>))"
      using "1.IH" [OF q refl lt] "1.prems" by blast
    with q lt show ?thesis by (rule "1.prems"(2))
  qed
qed

subsection \<open>Invariants of the graph and of the loop\<close>

lemma nodes_add_node: "set (nodes (add_node u g)) = insert u (set (nodes g))"
  by (auto simp: add_node_def)

lemma edges_add_node: "edges (add_node u g) = edges g"
  by (simp add: add_node_def)

lemma directed_add_node: "directed (add_node u g) = directed g"
  by (simp add: add_node_def)

lemma nodes_add_edge: "set (nodes (add_edge u v g)) = insert u (insert v (set (nodes g)))"
  by (auto simp: add_edge_def Let_def nodes_add_node)

lemma directed_add_edge: "directed (add_edge u v g) = directed g"
  by (simp add: add_edge_def Let_def directed_add_node)

lemma edges_add_edge:
  "directed g \<Longrightarrow> set (edges (add_edge u v g)) = insert (u, v) (set (edges g))"
  by (auto simp: add_edge_def Let_def has_edge_def edges_add_node directed_add_node)

lemma fold_visit_link_invariant:
  assumes "P s"
    and "\<And>s link. P s \<Longrightarrow> P (visit_link w c domain url depth link s)"
  shows "P (fold (visit_link w c domain url depth) links s)"
  using assms(1) by (induction links arbitrary: s) (simp_all add: assms(2))

lemma crawl_loop_invariant:
  assumes "P s"
    and "\<And>s url depth rest. P s \<Longrightarrow> st_q s = (url, depth) # rest
            \<Longrightarrow> st_pages_crawled s < max_pages c
            \<Longrightarrow> P (crawl_body w c domain url depth (s\<lparr>st_q := rest\<rparr>))"
  shows "P (crawl_loop w c domain s)"
  using assms
proof (induction w c domain s rule: crawl_loop.induct)
  case (1 w c domain s)
  show ?case
  proof (cases "st_q s")
    case Nil
    then show ?thesis using "1.prems"(1) by (simp add: crawl_loop.simps)
  next
    case (Cons e rest)
    obtain url depth where e: "e = (url, depth)" by (cases e)
    show ?thesis
    proof (cases "st_pages_crawled s < max_pages c")
      case True
      have "P (crawl_body w c domain url depth (s\<lparr>st_q := rest\<rparr>))"
        using "1.prems"(1) Cons e True by (intro "1.prems"(2)) simp_all
      then have "P (crawl_loop w c domain (crawl_body w c domain url depth (s\<lparr>st_q := rest\<rparr>)))"
        using "1.IH" [OF Cons e [symmetric] True] "1.prems"(2) by blast
      then show ?thesis using Cons e True by (simp add: crawl_loop.simps[of w c domain s])
    next
      case False
      then show ?thesis using "1.prems"(1) Cons e by (simp add: crawl_loop.simps[of w c domain s])
    qed
  qed
qed

subsection \<open>URL normalization\<close>

lemma rstrip_slash_idem: "rstrip_slash (rstrip_slash s) = rstrip_slash s"
  by (simp add: rstrip_slash_def)

lemma normalize_url_seed: "normalize_url w u [] = rstrip_slash u"
  by (simp add: normalize_url_def urljoin_def split_hash_head_def)

lemma rstrip_slash_decomp: "\<exists>n. s = rstrip_slash s @ replicate n (CHR ''/'')"
proof -
  let ?k = "length (takeWhile (\<lambda>c. c = CHR ''/'') (rev s))"
  have "rev s = takeWhile (\<lambda>c. c = CHR ''/'') (rev s) @ dropWhile (\<lambda>c. c = CHR ''/'') (rev s)"
    by simp
  moreover have "takeWhile (\<lambda>c. c = CHR ''/'') (rev s) = replicate ?k (CHR ''/'')"
    by (rule replicate_length_same [symmetric]) (auto dest: set_takeWhileD)
  ultimately have "rev s = replicate ?k (CHR ''/'') @ dropWhile (\<lambda>c. c = CHR ''/'') (rev s)"
    by simp
  then have "s = rev (replicate ?k (CHR ''/'') @ dropWhile (\<lambda>c. c = CHR ''/'') (rev s))"
    by (metis rev_rev_ident)
  then have "s = rstrip_slash s @ replicate ?k (CHR ''/'')"
    by (simp add: rstrip_slash_def)
  then show ?thesis by blast
qed

lemma rstrip_slash_no_trailing: "take 1 (rev (rstrip_slash s)) \<noteq> ''/''"
proof -
  have "take 1 (dropWhile (\<lambda>c. c = CHR ''/'') xs) \<noteq> ''/''" for xs
    by (induction xs) auto
  then show ?thesis by (simp add: rstrip_slash_def)
qed

text \<open>
  C5, as the code has it. \<open>normalize_url\<close> removes every slash at the end of the joined
  URL, not one: the joined URL is the result followed by some number of slashes, and the
  result does not end in a slash.
\<close>

theorem normalize_url_strips_all_slashes:
  "normalize_url w base link = rstrip_slash (urljoin w base (split_hash_head link))
   \<and> (\<exists>n. urljoin w base (split_hash_head link)
            = normalize_url w base link @ replicate n (CHR ''/''))
   \<and> take 1 (rev (normalize_url w base link)) \<noteq> ''/''"
  unfolding normalize_url_def Let_def
  using rstrip_slash_decomp rstrip_slash_no_trailing by blast

text \<open>
  C5 as the claim has it fails: the joined URL \<^verbatim>\<open>http://a.com/x//\<close> ends in a slash, and
  the result is not that URL without its last character.
\<close>

theorem normalize_url_single_slash_counterexample:
  "last (urljoin offline ''http://a.com'' (split_hash_head ''http://a.com/x//'')) = CHR ''/''
   \<and> normalize_url offline ''http://a.com'' ''http://a.com/x//'' = ''http://a.com/x''
   \<and> butlast (urljoin offline ''http://a.com'' (split_hash_head ''http://a.com/x//''))
       = ''http://a.com/x/''"
  by (simp add: normalize_url_def urljoin_def split_hash_head_def rstrip_slash_def
      offline_def absolute_world_def)

lemma normalize_url_seed_idempotent:
  "normalize_url w (normalize_url w u []) [] = normalize_url w u []"
  by (simp add: normalize_url_seed rstrip_slash_idem)

text \<open>
  C4, on the code. The page \<^verbatim>\<open>http://a.com/p#f\<close> links to \<^verbatim>\<open>#top\<close>: the link without its
  fragment is empty, \<^verbatim>\<open>urljoin\<close> returns the base as it is, and the result keeps the
  fragment of the base, which the comment of \<open>normalize_url\<close> says is stripped and which
  is stripped for every other link. Normalizing the result again gives another URL, and
  in the graph of the crawl the one page is two nodes.
\<close>

theorem normalize_url_keeps_base_fragment:
  "normalize_url offline ''http://a.com/p#f'' ''#top'' = ''http://a.com/p#f''
   \<and> normalize_url offline ''http://a.com/p#f''
         (normalize_url offline ''http://a.com/p#f'' ''#top'')
       = ''http://a.com/p''
   \<and> normalize_url offline ''http://a.com/p#f'' ''http://a.com/q#x'' = ''http://a.com/q''
   \<and> build_website_graph anchor_page ''http://a.com/p#f'' shallow
       = Inr \<lparr>directed = True,
              nodes = [''http://a.com/p#f'', ''http://a.com/p'', ''http://a.com/q''],
              edges = [(''http://a.com/p#f'', ''http://a.com/p#f''),
                       (''http://a.com/p#f'', ''http://a.com/p''),
                       (''http://a.com/p#f'', ''http://a.com/q'')]\<rparr>"
  by code_simp

subsection \<open>The queue and the seen set\<close>

text \<open>
  What a part of a round does to the queue and to the seen set: it appends the entries
  \<open>new\<close>, all at depth \<open>d\<close>, whose URLs are new to the seen set and enter it.
\<close>

definition enqueues :: "int \<Rightarrow> crawl_state \<Rightarrow> crawl_state \<Rightarrow> (string \<times> int) list \<Rightarrow> bool" where
  "enqueues d s s' new =
     (st_q s' = st_q s @ new \<and> st_seen s' = st_seen s \<union> fst ` set new
      \<and> distinct (map fst new) \<and> fst ` set new \<inter> st_seen s = {}
      \<and> snd ` set new \<subseteq> {d})"

lemma enqueues_refl: "enqueues d s s []"
  by (simp add: enqueues_def)

lemma enqueues_trans:
  "enqueues d s s' new \<Longrightarrow> enqueues d s' s'' new' \<Longrightarrow> enqueues d s s'' (new @ new')"
  unfolding enqueues_def by auto

lemma visit_link_enqueues:
  "\<exists>new. enqueues (depth + 1) s (visit_link w c domain url depth link s) new
         \<and> (new \<noteq> [] \<longrightarrow> depth + 1 \<le> max_depth c)"
proof (cases "visit_link w c domain url depth link s
    = s\<lparr>st_G := add_edge url link (st_G s), st_seen := insert link (st_seen s),
          st_q := st_q s @ [(link, depth + 1)]\<rparr>
    \<and> link \<notin> st_seen s \<and> depth + 1 \<le> max_depth c")
  case True
  then have "enqueues (depth + 1) s (visit_link w c domain url depth link s) [(link, depth + 1)]"
    by (simp add: enqueues_def)
  with True show ?thesis by blast
next
  case False
  then have "st_q (visit_link w c domain url depth link s) = st_q s
      \<and> st_seen (visit_link w c domain url depth link s) = st_seen s"
    by (auto simp: visit_link_def Let_def)
  then have "enqueues (depth + 1) s (visit_link w c domain url depth link s) []"
    by (simp add: enqueues_def)
  then show ?thesis by blast
qed

lemma fold_visit_link_enqueues:
  "\<exists>new. enqueues (depth + 1) s (fold (visit_link w c domain url depth) links s) new
         \<and> (new \<noteq> [] \<longrightarrow> depth + 1 \<le> max_depth c)"
proof (induction links arbitrary: s)
  case Nil
  show ?case using enqueues_refl by fastforce
next
  case (Cons link links)
  obtain n1 where n1: "enqueues (depth + 1) s (visit_link w c domain url depth link s) n1"
    "n1 \<noteq> [] \<longrightarrow> depth + 1 \<le> max_depth c"
    using visit_link_enqueues by blast
  obtain n2 where n2: "enqueues (depth + 1) (visit_link w c domain url depth link s)
      (fold (visit_link w c domain url depth) links (visit_link w c domain url depth link s)) n2"
    "n2 \<noteq> [] \<longrightarrow> depth + 1 \<le> max_depth c"
    using Cons.IH by blast
  from n1(1) n2(1) have "enqueues (depth + 1) s
      (fold (visit_link w c domain url depth) (link # links) s) (n1 @ n2)"
    by (simp add: enqueues_trans)
  moreover have "n1 @ n2 \<noteq> [] \<longrightarrow> depth + 1 \<le> max_depth c" using n1(2) n2(2) by auto
  ultimately show ?case by blast
qed

lemma crawl_body_enqueues:
  "\<exists>new. enqueues (depth + 1) s (crawl_body w c domain url depth s) new
         \<and> (new \<noteq> [] \<longrightarrow> depth + 1 \<le> max_depth c)"
proof (cases "depth > max_depth c \<or> \<not> allowed_by_robots w url")
  case True
  then show ?thesis using enqueues_refl [of "depth + 1" s] by (fastforce simp: crawl_body_skip)
next
  case False
  let ?s1 = "s\<lparr>st_pages_crawled := st_pages_crawled s + 1, st_G := add_node url (st_G s)\<rparr>"
  obtain new where new: "enqueues (depth + 1) ?s1
      (fold (visit_link w c domain url depth) (try_extract_links w url) ?s1) new"
    "new \<noteq> [] \<longrightarrow> depth + 1 \<le> max_depth c"
    using fold_visit_link_enqueues by blast
  have "crawl_body w c domain url depth s
      = fold (visit_link w c domain url depth) (try_extract_links w url) ?s1"
    using False by (simp add: crawl_body_def Let_def)
  with new have "enqueues (depth + 1) s (crawl_body w c domain url depth s) new"
    by (simp add: enqueues_def)
  with new(2) show ?thesis by blast
qed

lemma enqueue_log_seen:
  "fst ` set (st_q s) \<subseteq> st_seen s \<Longrightarrow>
   distinct (map fst (enqueue_log w c domain s))
   \<and> fst ` set (enqueue_log w c domain s) \<inter> st_seen s = {}
   \<and> st_seen (crawl_loop w c domain s) = st_seen s \<union> fst ` set (enqueue_log w c domain s)"
proof (induction s rule: crawl_induct [where w = w and c = c and domain = domain])
  case (stop s)
  then show ?case by (simp add: enqueue_log_stop crawl_loop_stop)
next
  case (step s url depth rest)
  let ?s0 = "s\<lparr>st_q := rest\<rparr>"
  let ?s' = "crawl_body w c domain url depth ?s0"
  obtain new where new: "enqueues (depth + 1) ?s0 ?s' new"
    using crawl_body_enqueues by blast
  then have q': "st_q ?s' = rest @ new" and seen': "st_seen ?s' = st_seen s \<union> fst ` set new"
    and dn: "distinct (map fst new)" and fresh: "fst ` set new \<inter> st_seen s = {}"
    by (simp_all add: enqueues_def)
  have pre: "fst ` set (st_q ?s') \<subseteq> st_seen ?s'"
    using step.prems step.hyps(1) q' seen' by auto
  note IH = step.IH [OF pre]
  have log: "enqueue_log w c domain s = new @ enqueue_log w c domain ?s'"
    using step.hyps q' by (simp add: enqueue_log_step)
  have loop: "crawl_loop w c domain s = crawl_loop w c domain ?s'"
    using step.hyps by (simp add: crawl_loop_step)
  show ?case
    unfolding log loop using IH dn fresh seen' by auto
qed

text \<open>
  C8. The entries ever put on the queue, the seed first, have pairwise different URLs,
  and the seen set at the end holds exactly their URLs.
\<close>

theorem enqueued_at_most_once:
  "distinct (map fst (run_enqueued w start_url c))
   \<and> st_seen (crawl_run w start_url c) = fst ` set (run_enqueued w start_url c)"
proof -
  let ?u = "normalize_url w start_url []"
  let ?s = "initial_state ?u"
  let ?d = "url_netloc w ?u"
  have "fst ` set (st_q ?s) \<subseteq> st_seen ?s" by (simp add: initial_state_def)
  from enqueue_log_seen [OF this, of w c ?d]
  have d: "distinct (map fst (enqueue_log w c ?d ?s))"
    and f: "fst ` set (enqueue_log w c ?d ?s) \<inter> st_seen ?s = {}"
    and e: "st_seen (crawl_loop w c ?d ?s) = st_seen ?s \<union> fst ` set (enqueue_log w c ?d ?s)"
    by blast+
  have q: "st_q ?s = [(?u, 0)]" and sn: "st_seen ?s = {?u}" by (simp_all add: initial_state_def)
  have "distinct (map fst (st_q ?s @ enqueue_log w c ?d ?s))"
    using d f unfolding q sn by auto
  moreover have "st_seen (crawl_loop w c ?d ?s) = fst ` set (st_q ?s @ enqueue_log w c ?d ?s)"
    using e unfolding q sn by auto
  ultimately show ?thesis by (simp add: run_enqueued_def crawl_run_def Let_def)
qed

lemma run_enqueued_triangle:
  "run_enqueued triangle ''http://a.com/'' roomy
   = [(''http://a.com'', 0), (''http://a.com/b'', 1), (''http://a.com/c'', 1)]"
  by code_simp

lemma edges_triangle:
  "edges (crawl_graph triangle ''http://a.com/'' roomy)
   = [(''http://a.com'', ''http://a.com/b''), (''http://a.com'', ''http://a.com/c''),
      (''http://a.com/b'', ''http://a.com''), (''http://a.com/b'', ''http://a.com/c''),
      (''http://a.com/c'', ''http://a.com''), (''http://a.com/c'', ''http://a.com/b'')]"
  by code_simp

theorem enqueued_at_most_once_witness:
  "distinct (map fst (run_enqueued triangle ''http://a.com/'' roomy))
   \<and> st_seen (crawl_run triangle ''http://a.com/'' roomy)
      = fst ` set (run_enqueued triangle ''http://a.com/'' roomy)
   \<and> run_enqueued triangle ''http://a.com/'' roomy
      = [(''http://a.com'', 0), (''http://a.com/b'', 1), (''http://a.com/c'', 1)]
   \<and> length (edges (crawl_graph triangle ''http://a.com/'' roomy)) = 6"
  using enqueued_at_most_once [of triangle "''http://a.com/''" roomy]
    run_enqueued_triangle edges_triangle by simp

lemma crawl_states_depths:
  "\<forall>e\<in>set (st_q s). snd e \<le> max_depth c \<Longrightarrow>
   \<forall>s'\<in>set (crawl_states w c domain s). \<forall>e\<in>set (st_q s'). snd e \<le> max_depth c"
proof (induction s rule: crawl_induct [where w = w and c = c and domain = domain])
  case (stop s)
  then show ?case by (simp add: crawl_states_stop)
next
  case (step s url depth rest)
  let ?s' = "crawl_body w c domain url depth (s\<lparr>st_q := rest\<rparr>)"
  obtain new where new: "enqueues (depth + 1) (s\<lparr>st_q := rest\<rparr>) ?s' new"
    "new \<noteq> [] \<longrightarrow> depth + 1 \<le> max_depth c"
    using crawl_body_enqueues by blast
  have "\<forall>e\<in>set new. snd e \<le> max_depth c"
  proof
    fix e assume e: "e \<in> set new"
    then have "snd e = depth + 1" using new(1) by (auto simp: enqueues_def)
    moreover have "new \<noteq> []" using e by auto
    ultimately show "snd e \<le> max_depth c" using new(2) by simp
  qed
  moreover have "st_q ?s' = rest @ new" using new(1) by (simp add: enqueues_def)
  ultimately have "\<forall>e\<in>set (st_q ?s'). snd e \<le> max_depth c"
    using step.prems step.hyps(1) by auto
  then have "\<forall>s'\<in>set (crawl_states w c domain ?s'). \<forall>e\<in>set (st_q s'). snd e \<le> max_depth c"
    by (rule step.IH)
  then show ?case using step.prems step.hyps by (simp add: crawl_states_step)
qed


text \<open>
  C10. When \<open>max_depth\<close> is not negative, every entry of the queue, in every state in
  which the loop condition is tested, has a depth of at most \<open>max_depth\<close>; so the entry
  taken off the queue never passes the test \<^verbatim>\<open>depth > max_depth\<close>.
\<close>

theorem queue_depth_bounded:
  assumes "0 \<le> max_depth c"
  shows "(\<forall>s\<in>set (run_states w start_url c). \<forall>e\<in>set (st_q s). snd e \<le> max_depth c)
    \<and> (\<forall>s\<in>set (run_states w start_url c). \<forall>url depth rest.
          st_q s = (url, depth) # rest \<longrightarrow> \<not> depth > max_depth c)"
proof -
  have a: "\<forall>s\<in>set (run_states w start_url c). \<forall>e\<in>set (st_q s). snd e \<le> max_depth c"
    unfolding run_states_def Let_def
    by (rule crawl_states_depths) (simp add: initial_state_def assms)
  moreover have "\<forall>s\<in>set (run_states w start_url c). \<forall>url depth rest.
          st_q s = (url, depth) # rest \<longrightarrow> \<not> depth > max_depth c"
    using a by fastforce
  ultimately show ?thesis by blast
qed

lemma run_states_two_links:
  "map st_q (run_states two_links ''http://a.com/'' shallow)
   = [[(''http://a.com'', 0)], [(''http://a.com/b'', 1), (''http://a.com/c'', 1)],
      [(''http://a.com/c'', 1)], []]"
  by code_simp

theorem queue_depth_bounded_witness:
  "0 \<le> max_depth shallow
   \<and> list_all (\<lambda>s. list_all (\<lambda>e. snd e \<le> max_depth shallow) (st_q s))
        (run_states two_links ''http://a.com/'' shallow)
   \<and> map st_q (run_states two_links ''http://a.com/'' shallow)
      = [[(''http://a.com'', 0)], [(''http://a.com/b'', 1), (''http://a.com/c'', 1)],
         [(''http://a.com/c'', 1)], []]"
proof -
  have h: "0 \<le> max_depth shallow" by (simp add: shallow_def)
  from queue_depth_bounded [OF h, of two_links "''http://a.com/''"]
  have "\<forall>s\<in>set (run_states two_links ''http://a.com/'' shallow).
          \<forall>e\<in>set (st_q s). snd e \<le> max_depth shallow" by blast
  then have "list_all (\<lambda>s. list_all (\<lambda>e. snd e \<le> max_depth shallow) (st_q s))
        (run_states two_links ''http://a.com/'' shallow)"
    by (simp add: list_all_iff)
  with h run_states_two_links show ?thesis by blast
qed

subsection \<open>The edges of the graph\<close>

lemma edges_add_edge_subset: "set (edges (add_edge u v g)) \<subseteq> insert (u, v) (set (edges g))"
  by (auto simp: add_edge_def Let_def edges_add_node)

lemma edges_visit_link:
  "set (edges (st_G (visit_link w c domain url depth link s)))
     \<subseteq> set (edges (st_G s))
        \<union> {e. e = (url, link) \<and> is_valid_scheme w link
                \<and> (same_domain c \<longrightarrow> url_netloc w link = domain)}"
  using edges_add_edge_subset [of url link "st_G s"]
  by (auto simp: visit_link_def Let_def)

lemma visit_link_same_domain:
  assumes "same_domain c"
    and "\<forall>e\<in>set (edges (st_G s)). url_netloc w (snd e) = domain \<and> is_valid_scheme w (snd e)"
  shows "\<forall>e\<in>set (edges (st_G (visit_link w c domain url depth link s))).
           url_netloc w (snd e) = domain \<and> is_valid_scheme w (snd e)"
proof
  fix e assume "e \<in> set (edges (st_G (visit_link w c domain url depth link s)))"
  with edges_visit_link [of w c domain url depth link s]
  have "e \<in> set (edges (st_G s)) \<or> (e = (url, link) \<and> is_valid_scheme w link
                \<and> (same_domain c \<longrightarrow> url_netloc w link = domain))" by blast
  then show "url_netloc w (snd e) = domain \<and> is_valid_scheme w (snd e)"
    using assms by auto
qed

lemma crawl_body_same_domain:
  assumes "same_domain c"
    and "\<forall>e\<in>set (edges (st_G s)). url_netloc w (snd e) = domain \<and> is_valid_scheme w (snd e)"
  shows "\<forall>e\<in>set (edges (st_G (crawl_body w c domain url depth s))).
           url_netloc w (snd e) = domain \<and> is_valid_scheme w (snd e)"
proof (cases "depth > max_depth c \<or> \<not> allowed_by_robots w url")
  case True
  then show ?thesis using assms(2) by (simp add: crawl_body_skip)
next
  case False
  let ?s1 = "s\<lparr>st_pages_crawled := st_pages_crawled s + 1, st_G := add_node url (st_G s)\<rparr>"
  have "\<forall>e\<in>set (edges (st_G ?s1)). url_netloc w (snd e) = domain \<and> is_valid_scheme w (snd e)"
    using assms(2) by (simp add: edges_add_node)
  then have "\<forall>e\<in>set (edges (st_G (fold (visit_link w c domain url depth)
                 (try_extract_links w url) ?s1))).
           url_netloc w (snd e) = domain \<and> is_valid_scheme w (snd e)"
    by (rule fold_visit_link_invariant) (rule visit_link_same_domain [OF assms(1)])
  then show ?thesis using False by (simp add: crawl_body_def Let_def)
qed

text \<open>
  C7. With \<open>same_domain\<close>, the target of every edge of the finished graph has the network
  location of the normalized seed (and an http or https scheme).
\<close>

theorem same_domain_edges:
  assumes "same_domain c"
  shows "\<forall>e\<in>set (edges (crawl_graph w start_url c)).
           url_netloc w (snd e) = url_netloc w (normalize_url w start_url [])
           \<and> is_valid_scheme w (snd e)"
proof -
  let ?d = "url_netloc w (normalize_url w start_url [])"
  let ?s = "initial_state (normalize_url w start_url [])"
  have "\<forall>e\<in>set (edges (st_G (crawl_loop w c ?d ?s))).
           url_netloc w (snd e) = ?d \<and> is_valid_scheme w (snd e)"
  proof (rule crawl_loop_invariant)
    show "\<forall>e\<in>set (edges (st_G ?s)). url_netloc w (snd e) = ?d \<and> is_valid_scheme w (snd e)"
      by (simp add: initial_state_def DiGraph_def)
  next
    fix s :: crawl_state and url depth rest
    assume "\<forall>e\<in>set (edges (st_G s)). url_netloc w (snd e) = ?d \<and> is_valid_scheme w (snd e)"
    then have "\<forall>e\<in>set (edges (st_G (s\<lparr>st_q := rest\<rparr>))).
        url_netloc w (snd e) = ?d \<and> is_valid_scheme w (snd e)" by simp
    then show "\<forall>e\<in>set (edges (st_G (crawl_body w c ?d url depth (s\<lparr>st_q := rest\<rparr>)))).
        url_netloc w (snd e) = ?d \<and> is_valid_scheme w (snd e)"
      by (rule crawl_body_same_domain [OF assms])
  qed
  then show ?thesis by (simp add: crawl_graph_def crawl_run_def Let_def)
qed

lemma build_two_hosts:
  "crawl_graph two_hosts ''http://a.com/'' shallow
   = \<lparr>directed = True, nodes = [''http://a.com'', ''http://a.com/c''],
      edges = [(''http://a.com'', ''http://a.com/c'')]\<rparr>"
  by code_simp

theorem same_domain_edges_witness:
  "same_domain shallow
   \<and> list_all (\<lambda>e. simple_netloc (snd e) = ''a.com'')
        (edges (crawl_graph two_hosts ''http://a.com/'' shallow))
   \<and> crawl_graph two_hosts ''http://a.com/'' shallow
      = \<lparr>directed = True, nodes = [''http://a.com'', ''http://a.com/c''],
         edges = [(''http://a.com'', ''http://a.com/c'')]\<rparr>
   \<and> build_website_graph two_hosts ''http://a.com/'' shallow
      = Inr (crawl_graph two_hosts ''http://a.com/'' shallow)"
proof -
  have b: "build_website_graph two_hosts ''http://a.com/'' shallow
      = Inr (crawl_graph two_hosts ''http://a.com/'' shallow)"
    by code_simp
  have h: "same_domain shallow" by (simp add: shallow_def)
  have n: "simple_netloc (normalize_url two_hosts ''http://a.com/'' []) = ''a.com''"
    by code_simp
  have u: "url_netloc two_hosts = simple_netloc"
    by (simp add: two_hosts_def absolute_world_def)
  from same_domain_edges [OF h, of two_hosts "''http://a.com/''"]
  have "\<forall>e\<in>set (edges (crawl_graph two_hosts ''http://a.com/'' shallow)).
          simple_netloc (snd e) = ''a.com''"
    unfolding u n by blast
  then have "list_all (\<lambda>e. simple_netloc (snd e) = ''a.com'')
        (edges (crawl_graph two_hosts ''http://a.com/'' shallow))"
    by (simp add: list_all_iff)
  with h b build_two_hosts show ?thesis by blast
qed

subsection \<open>The page budget\<close>

text \<open>
  The graph of the crawler is directed and holds both ends of each of its edges.
  \<open>grows_from url g g'\<close>: \<open>g'\<close> is \<open>g\<close> with more edges, all leaving \<open>url\<close>, and with their
  targets as its new nodes.
\<close>

definition graph_ok :: "graph \<Rightarrow> bool" where
  "graph_ok g = (directed g \<and> fst ` set (edges g) \<union> snd ` set (edges g) \<subseteq> set (nodes g))"

definition grows_from :: "string \<Rightarrow> graph \<Rightarrow> graph \<Rightarrow> bool" where
  "grows_from url g g' =
     (graph_ok g' \<and> set (edges g) \<subseteq> set (edges g')
      \<and> fst ` (set (edges g') - set (edges g)) \<subseteq> {url}
      \<and> set (nodes g') = set (nodes g) \<union> snd ` (set (edges g') - set (edges g)))"

lemma grows_from_refl: "graph_ok g \<Longrightarrow> grows_from url g g"
  by (simp add: grows_from_def)

lemma graph_visit_link:
  "st_G (visit_link w c domain url depth link s) = st_G s
   \<or> st_G (visit_link w c domain url depth link s) = add_edge url link (st_G s)"
  by (simp add: visit_link_def Let_def)

lemma grows_from_add_edge:
  assumes g: "grows_from url g g'" and u: "url \<in> set (nodes g)"
  shows "grows_from url g (add_edge url link g')"
proof -
  from g have ok: "graph_ok g'" and sub: "set (edges g) \<subseteq> set (edges g')"
    and src: "fst ` (set (edges g') - set (edges g)) \<subseteq> {url}"
    and nd: "set (nodes g') = set (nodes g) \<union> snd ` (set (edges g') - set (edges g))"
    by (simp_all add: grows_from_def)
  from ok have dir: "directed g'" by (simp add: graph_ok_def)
  have e: "set (edges (add_edge url link g')) = insert (url, link) (set (edges g'))"
    using dir by (rule edges_add_edge)
  have n: "set (nodes (add_edge url link g')) = insert url (insert link (set (nodes g')))"
    by (rule nodes_add_edge)
  have u': "url \<in> set (nodes g')" using u nd by simp
  have "graph_ok (add_edge url link g')"
    using ok unfolding graph_ok_def e n by (auto simp: directed_add_edge)
  moreover have "set (edges g) \<subseteq> set (edges (add_edge url link g'))"
    using sub unfolding e by auto
  moreover have "fst ` (set (edges (add_edge url link g')) - set (edges g)) \<subseteq> {url}"
    using src unfolding e by auto
  moreover have "set (nodes (add_edge url link g'))
      = set (nodes g) \<union> snd ` (set (edges (add_edge url link g')) - set (edges g))"
  proof (cases "(url, link) \<in> set (edges g')")
    case True
    then have "link \<in> set (nodes g')" using ok by (force simp: graph_ok_def)
    moreover from True have "insert (url, link) (set (edges g')) = set (edges g')" by auto
    ultimately show ?thesis unfolding e n using u' nd by auto
  next
    case False
    then have "(url, link) \<notin> set (edges g)" using sub by auto
    then have "insert (url, link) (set (edges g')) - set (edges g)
        = insert (url, link) (set (edges g') - set (edges g))" by auto
    then show ?thesis unfolding e n using u' nd by auto
  qed
  ultimately show ?thesis by (simp add: grows_from_def)
qed

lemma fold_visit_link_grows:
  assumes "graph_ok (st_G s)" and "url \<in> set (nodes (st_G s))"
  shows "grows_from url (st_G s) (st_G (fold (visit_link w c domain url depth) links s))"
proof (rule fold_visit_link_invariant [where P = "\<lambda>s'. grows_from url (st_G s) (st_G s')"])
  show "grows_from url (st_G s) (st_G s)" using assms(1) by (rule grows_from_refl)
next
  fix s' :: crawl_state and link
  assume "grows_from url (st_G s) (st_G s')"
  then show "grows_from url (st_G s) (st_G (visit_link w c domain url depth link s'))"
    using graph_visit_link [of w c domain url depth link s'] grows_from_add_edge [OF _ assms(2)]
    by auto
qed

lemma graph_ok_add_node: "graph_ok g \<Longrightarrow> graph_ok (add_node u g)"
  by (auto simp: graph_ok_def directed_add_node edges_add_node nodes_add_node)

lemma crawl_body_graph:
  assumes ok: "graph_ok (st_G s)"
  shows "graph_ok (st_G (crawl_body w c domain url depth s))
    \<and> set (edges (st_G s)) \<subseteq> set (edges (st_G (crawl_body w c domain url depth s)))
    \<and> fst ` (set (edges (st_G (crawl_body w c domain url depth s))) - set (edges (st_G s)))
        \<subseteq> set (if depth > max_depth c \<or> \<not> allowed_by_robots w url then [] else [url])
    \<and> set (nodes (st_G (crawl_body w c domain url depth s)))
        = set (nodes (st_G s))
          \<union> set (if depth > max_depth c \<or> \<not> allowed_by_robots w url then [] else [url])
          \<union> snd ` (set (edges (st_G (crawl_body w c domain url depth s))) - set (edges (st_G s)))"
proof (cases "depth > max_depth c \<or> \<not> allowed_by_robots w url")
  case True
  then show ?thesis using ok by (simp add: crawl_body_skip)
next
  case False
  let ?s1 = "s\<lparr>st_pages_crawled := st_pages_crawled s + 1, st_G := add_node url (st_G s)\<rparr>"
  have b: "crawl_body w c domain url depth s
      = fold (visit_link w c domain url depth) (try_extract_links w url) ?s1"
    using False by (simp add: crawl_body_def Let_def)
  have "graph_ok (st_G ?s1)" using ok by (simp add: graph_ok_add_node)
  moreover have "url \<in> set (nodes (st_G ?s1))" by (simp add: nodes_add_node)
  ultimately have "grows_from url (st_G ?s1) (st_G (crawl_body w c domain url depth s))"
    unfolding b by (rule fold_visit_link_grows)
  then show ?thesis using False
    by (simp add: grows_from_def edges_add_node nodes_add_node)
qed

lemma crawl_loop_graph:
  "graph_ok (st_G s) \<Longrightarrow>
   graph_ok (st_G (crawl_loop w c domain s))
   \<and> set (edges (st_G s)) \<subseteq> set (edges (st_G (crawl_loop w c domain s)))
   \<and> fst ` set (edges (st_G (crawl_loop w c domain s)))
       \<subseteq> fst ` set (edges (st_G s)) \<union> set (crawled_log w c domain s)
   \<and> set (nodes (st_G (crawl_loop w c domain s)))
       = set (nodes (st_G s)) \<union> set (crawled_log w c domain s)
         \<union> snd ` set (edges (st_G (crawl_loop w c domain s)))"
proof (induction s rule: crawl_induct [where w = w and c = c and domain = domain])
  case (stop s)
  then show ?case by (auto simp: crawl_loop_stop crawled_log_stop graph_ok_def)
next
  case (step s url depth rest)
  let ?s0 = "s\<lparr>st_q := rest\<rparr>"
  let ?s' = "crawl_body w c domain url depth ?s0"
  let ?f = "crawl_loop w c domain ?s'"
  let ?cr = "if depth > max_depth c \<or> \<not> allowed_by_robots w url then [] else [url]"
  have ok0: "graph_ok (st_G ?s0)" using step.prems by simp
  from crawl_body_graph [OF ok0, of w c domain url depth]
  have ok': "graph_ok (st_G ?s')"
    and e': "set (edges (st_G s)) \<subseteq> set (edges (st_G ?s'))"
    and src': "fst ` (set (edges (st_G ?s')) - set (edges (st_G s))) \<subseteq> set ?cr"
    and n': "set (nodes (st_G ?s')) = set (nodes (st_G s)) \<union> set ?cr
              \<union> snd ` (set (edges (st_G ?s')) - set (edges (st_G s)))"
    by simp_all
  from step.IH [OF ok']
  have okf: "graph_ok (st_G ?f)"
    and ef: "set (edges (st_G ?s')) \<subseteq> set (edges (st_G ?f))"
    and srcf: "fst ` set (edges (st_G ?f))
        \<subseteq> fst ` set (edges (st_G ?s')) \<union> set (crawled_log w c domain ?s')"
    and nf: "set (nodes (st_G ?f)) = set (nodes (st_G ?s')) \<union> set (crawled_log w c domain ?s')
              \<union> snd ` set (edges (st_G ?f))"
    by simp_all
  have loop: "crawl_loop w c domain s = ?f" using step.hyps by (simp add: crawl_loop_step)
  have log: "crawled_log w c domain s = ?cr @ crawled_log w c domain ?s'"
    using step.hyps by (simp add: crawled_log_step)
  have "set (edges (st_G s)) \<subseteq> set (edges (st_G ?f))" using e' ef by blast
  moreover have "fst ` set (edges (st_G ?f))
      \<subseteq> fst ` set (edges (st_G s)) \<union> set (?cr @ crawled_log w c domain ?s')"
  proof
    fix x assume "x \<in> fst ` set (edges (st_G ?f))"
    with srcf have "x \<in> fst ` set (edges (st_G ?s')) \<or> x \<in> set (crawled_log w c domain ?s')"
      by blast
    then show "x \<in> fst ` set (edges (st_G s)) \<union> set (?cr @ crawled_log w c domain ?s')"
    proof
      assume "x \<in> fst ` set (edges (st_G ?s'))"
      then obtain e where e: "e \<in> set (edges (st_G ?s'))" "x = fst e" by blast
      show ?thesis
      proof (cases "e \<in> set (edges (st_G s))")
        case True
        then show ?thesis using e by blast
      next
        case False
        then have "fst e \<in> set ?cr" using e src' by blast
        then show ?thesis using e by simp
      qed
    next
      assume "x \<in> set (crawled_log w c domain ?s')"
      then show ?thesis by simp
    qed
  qed
  moreover have "set (nodes (st_G ?f))
      = set (nodes (st_G s)) \<union> set (?cr @ crawled_log w c domain ?s')
        \<union> snd ` set (edges (st_G ?f))"
  proof -
    have "snd ` (set (edges (st_G ?s')) - set (edges (st_G s))) \<subseteq> snd ` set (edges (st_G ?f))"
      using ef by blast
    then show ?thesis unfolding nf n' by auto
  qed
  ultimately show ?case unfolding loop log using okf by blast
qed

lemma crawl_loop_pages:
  "st_pages_crawled (crawl_loop w c domain s)
     = st_pages_crawled s + int (length (crawled_log w c domain s))
   \<and> st_pages_crawled (crawl_loop w c domain s) \<le> max (st_pages_crawled s) (max_pages c)"
proof (induction s rule: crawl_induct [where w = w and c = c and domain = domain])
  case (stop s)
  then show ?case by (simp add: crawl_loop_stop crawled_log_stop)
next
  case (step s url depth rest)
  let ?s' = "crawl_body w c domain url depth (s\<lparr>st_q := rest\<rparr>)"
  have p: "st_pages_crawled ?s'
      = (if depth > max_depth c \<or> \<not> allowed_by_robots w url then st_pages_crawled s
         else st_pages_crawled s + 1)"
    by (simp add: crawl_body_pages_crawled)
  show ?case
    using step.IH step.hyps p
    by (auto simp: crawl_loop_step crawled_log_step)
qed

text \<open>
  C1, as the code has it. The budget bounds the pages crawled, not the nodes: at most
  \<open>max_pages\<close> pages are crawled, \<^verbatim>\<open>pages_crawled\<close> counts them, every node of the
  finished graph is a crawled page or the target of an edge, and only crawled pages
  have outgoing edges.
\<close>

theorem crawled_pages_within_budget:
  "int (length (run_crawled w start_url c)) \<le> max 0 (max_pages c)
   \<and> st_pages_crawled (crawl_run w start_url c) = int (length (run_crawled w start_url c))
   \<and> set (nodes (crawl_graph w start_url c))
       = set (run_crawled w start_url c) \<union> snd ` set (edges (crawl_graph w start_url c))
   \<and> fst ` set (edges (crawl_graph w start_url c)) \<subseteq> set (run_crawled w start_url c)"
proof -
  let ?d = "url_netloc w (normalize_url w start_url [])"
  let ?s = "initial_state (normalize_url w start_url [])"
  have ok: "graph_ok (st_G ?s)" by (simp add: initial_state_def DiGraph_def graph_ok_def)
  have g: "st_G ?s = DiGraph" and p: "st_pages_crawled ?s = 0" by (simp_all add: initial_state_def)
  from crawl_loop_graph [OF ok, of w c ?d] crawl_loop_pages [of w c ?d ?s]
  show ?thesis
    unfolding crawl_graph_def crawl_run_def run_crawled_def Let_def g p
    by (simp add: DiGraph_def)
qed

text \<open>
  C1 as the claim has it fails: with a budget of one page, the seed page is crawled and
  its two links become edges, whose targets are nodes.
\<close>

theorem node_count_counterexample:
  "max_pages one_page = 1
   \<and> build_website_graph two_links ''http://a.com/'' one_page
      = Inr (crawl_graph two_links ''http://a.com/'' one_page)
   \<and> number_of_nodes (crawl_graph two_links ''http://a.com/'' one_page) = 3
   \<and> run_crawled two_links ''http://a.com/'' one_page = [''http://a.com'']"
  by code_simp

subsection \<open>Determinism\<close>

lemma visit_link_cong:
  "url_scheme w1 = url_scheme w2 \<Longrightarrow> url_netloc w1 = url_netloc w2 \<Longrightarrow>
   visit_link w1 c domain url depth = visit_link w2 c domain url depth"
  by (intro ext) (simp add: visit_link_def is_valid_scheme_def)

lemma crawl_body_cong:
  assumes "same_answers S w1 w2" and "url \<in> S"
  shows "crawl_body w1 c domain url depth s = crawl_body w2 c domain url depth s"
proof -
  from assms have "try_extract_links w1 url = try_extract_links w2 url"
    and "allowed_by_robots w1 url = allowed_by_robots w2 url"
    and "visit_link w1 c domain url depth = visit_link w2 c domain url depth"
    by (auto simp: same_answers_def intro: visit_link_cong)
  then show ?thesis by (simp add: crawl_body_def)
qed

lemma crawl_loop_cong:
  "fst ` set (st_q s) \<subseteq> st_seen s \<Longrightarrow>
   same_answers (st_seen (crawl_loop w1 c domain s)) w1 w2 \<Longrightarrow>
   crawl_loop w2 c domain s = crawl_loop w1 c domain s"
proof (induction s rule: crawl_induct [where w = w1 and c = c and domain = domain])
  case (stop s)
  then show ?case by (simp add: crawl_loop_stop)
next
  case (step s url depth rest)
  let ?s0 = "s\<lparr>st_q := rest\<rparr>"
  let ?s' = "crawl_body w1 c domain url depth ?s0"
  have loop: "crawl_loop w1 c domain s = crawl_loop w1 c domain ?s'"
    using step.hyps by (simp add: crawl_loop_step)
  from enqueue_log_seen [OF step.prems(1), of w1 c domain]
  have "st_seen s \<subseteq> st_seen (crawl_loop w1 c domain s)" by blast
  moreover have "url \<in> st_seen s" using step.prems(1) step.hyps(1) by auto
  ultimately have "url \<in> st_seen (crawl_loop w1 c domain s)" by blast
  with step.prems(2) have body: "crawl_body w1 c domain url depth ?s0
      = crawl_body w2 c domain url depth ?s0"
    by (rule crawl_body_cong)
  obtain new where "enqueues (depth + 1) ?s0 ?s' new"
    using crawl_body_enqueues by blast
  then have pre: "fst ` set (st_q ?s') \<subseteq> st_seen ?s'"
    using step.prems(1) step.hyps(1) by (auto simp: enqueues_def)
  have "crawl_loop w2 c domain ?s' = crawl_loop w1 c domain ?s'"
    using pre step.prems(2) unfolding loop by (rule step.IH)
  moreover have "crawl_loop w2 c domain s = crawl_loop w2 c domain ?s'"
    using step.hyps body by (simp add: crawl_loop_step)
  ultimately show ?case using loop by simp
qed

lemma crawl_run_cong:
  assumes "same_answers (st_seen (crawl_run w1 start_url c)) w1 w2"
  shows "crawl_run w2 start_url c = crawl_run w1 start_url c"
proof -
  have n: "normalize_url w2 start_url [] = normalize_url w1 start_url []"
    by (simp add: normalize_url_seed)
  have d: "url_netloc w2 = url_netloc w1" using assms by (simp add: same_answers_def)
  have "fst ` set (st_q (initial_state (normalize_url w1 start_url [])))
      \<subseteq> st_seen (initial_state (normalize_url w1 start_url []))"
    by (simp add: initial_state_def)
  then have "crawl_loop w2 c (url_netloc w1 (normalize_url w1 start_url []))
        (initial_state (normalize_url w1 start_url []))
      = crawl_loop w1 c (url_netloc w1 (normalize_url w1 start_url []))
        (initial_state (normalize_url w1 start_url []))"
    using assms unfolding crawl_run_def Let_def by (rule crawl_loop_cong)
  then show ?thesis by (simp add: crawl_run_def Let_def n d)
qed

text \<open>
  C9. The result of a run depends on the world only through the answers for the URLs
  that the run has seen: a second run in a world that gives the same links and the same
  robots verdict for these URLs builds the same graph, with the same label; and when
  \<^verbatim>\<open>urlparse\<close> accepts the seed in both worlds or in neither, the two calls of
  \<open>build_website_graph\<close> end alike.
\<close>

theorem crawl_deterministic:
  assumes "same_answers (st_seen (crawl_run w1 start_url c)) w1 w2"
  shows "crawl_graph w2 start_url c = crawl_graph w1 start_url c
    \<and> classify_graph lib (crawl_graph w2 start_url c)
        = classify_graph lib (crawl_graph w1 start_url c)
    \<and> (url_parses w2 (normalize_url w2 start_url [])
          = url_parses w1 (normalize_url w1 start_url [])
        \<longrightarrow> build_website_graph w2 start_url c = build_website_graph w1 start_url c)"
proof -
  have g: "crawl_graph w2 start_url c = crawl_graph w1 start_url c"
    using crawl_run_cong [OF assms] by (simp add: crawl_graph_def)
  have "build_website_graph w2 start_url c = build_website_graph w1 start_url c"
    if "url_parses w2 (normalize_url w2 start_url [])
          = url_parses w1 (normalize_url w1 start_url [])"
    using that g by (simp add: build_website_graph_def Let_def)
  with g show ?thesis by simp
qed

lemma seen_two_links:
  "st_seen (crawl_run two_links ''http://a.com/'' shallow)
   = {''http://a.com'', ''http://a.com/b'', ''http://a.com/c''}"
  by code_simp

lemma same_answers_two_links:
  "same_answers (st_seen (crawl_run two_links ''http://a.com/'' shallow))
     two_links two_links_elsewhere"
  unfolding seen_two_links
  by (simp add: same_answers_def two_links_def two_links_elsewhere_def absolute_world_def
      try_extract_links_def extract_links_def allowed_by_robots_def normalize_url_def
      urljoin_def)

theorem crawl_deterministic_witness:
  "same_answers (st_seen (crawl_run two_links ''http://a.com/'' shallow))
     two_links two_links_elsewhere
   \<and> crawl_graph two_links_elsewhere ''http://a.com/'' shallow
      = crawl_graph two_links ''http://a.com/'' shallow
   \<and> classify_graph no_lib (crawl_graph two_links_elsewhere ''http://a.com/'' shallow)
      = classify_graph no_lib (crawl_graph two_links ''http://a.com/'' shallow)
   \<and> url_parses two_links_elsewhere (normalize_url two_links_elsewhere ''http://a.com/'' [])
      = url_parses two_links (normalize_url two_links ''http://a.com/'' [])
   \<and> build_website_graph two_links_elsewhere ''http://a.com/'' shallow
      = build_website_graph two_links ''http://a.com/'' shallow
   \<and> build_website_graph two_links ''http://a.com/'' shallow
      = Inr \<lparr>directed = True, nodes = [''http://a.com'', ''http://a.com/b'', ''http://a.com/c''],
             edges = [(''http://a.com'', ''http://a.com/b''),
                      (''http://a.com'', ''http://a.com/c'')]\<rparr>"
proof -
  have p: "url_parses two_links_elsewhere (normalize_url two_links_elsewhere ''http://a.com/'' [])
      = url_parses two_links (normalize_url two_links ''http://a.com/'' [])"
    by code_simp
  have b: "build_website_graph two_links ''http://a.com/'' shallow
      = Inr \<lparr>directed = True, nodes = [''http://a.com'', ''http://a.com/b'', ''http://a.com/c''],
             edges = [(''http://a.com'', ''http://a.com/b''),
                      (''http://a.com'', ''http://a.com/c'')]\<rparr>"
    by code_simp
  from crawl_deterministic [OF same_answers_two_links, of no_lib] same_answers_two_links p b
  show ?thesis by blast
qed

subsection \<open>Failures\<close>

lemma try_extract_links_failed:
  "http_get w u = RequestFailed \<or> http_get w u = ParseFailed \<Longrightarrow> try_extract_links w u = []"
  by (auto simp: try_extract_links_def extract_links_def)

lemma normalize_url_http_get_update:
  "normalize_url (w\<lparr>http_get := f\<rparr>) = normalize_url w"
  by (intro ext) (simp add: normalize_url_def urljoin_def)

lemma same_answers_failed_page:
  assumes "http_get w u = RequestFailed \<or> http_get w u = ParseFailed"
  shows "same_answers S w (w\<lparr>http_get := (http_get w)(u := Anchors [])\<rparr>)"
proof -
  have "try_extract_links w x = try_extract_links (w\<lparr>http_get := (http_get w)(u := Anchors [])\<rparr>) x"
    for x
  proof (cases "x = u")
    case True
    then show ?thesis using try_extract_links_failed [OF assms]
      by (simp add: try_extract_links_def extract_links_def)
  next
    case False
    then show ?thesis
      by (simp add: try_extract_links_def extract_links_def normalize_url_http_get_update
          split: response.splits)
  qed
  then show ?thesis by (simp add: same_answers_def allowed_by_robots_def)
qed

lemma seed_is_crawled:
  assumes "0 < max_pages c" and "0 \<le> max_depth c"
    and "allowed_by_robots w (normalize_url w start_url [])"
  shows "take 1 (run_crawled w start_url c) = [normalize_url w start_url []]"
  using assms
  by (simp add: run_crawled_def Let_def initial_state_def
      crawled_log_step [where url = "normalize_url w start_url []" and depth = 0 and rest = "[]"])

lemma build_website_graph_Inr:
  "build_website_graph w start_url c = Inr g \<Longrightarrow> g = crawl_graph w start_url c"
  by (auto simp: build_website_graph_def Let_def split: if_splits)

lemma build_website_graph_parses:
  "url_parses w (normalize_url w start_url []) \<Longrightarrow>
   build_website_graph w start_url c = Inr (crawl_graph w start_url c)"
  by (simp add: build_website_graph_def Let_def)

lemma build_website_graph_raises:
  "\<not> url_parses w (normalize_url w start_url []) \<Longrightarrow>
   build_website_graph w start_url c = Inl ValueError"
  by (simp add: build_website_graph_def Let_def)

lemma crawled_are_nodes:
  "set (run_crawled w start_url c) \<subseteq> set (nodes (crawl_graph w start_url c))"
proof -
  let ?d = "url_netloc w (normalize_url w start_url [])"
  let ?s = "initial_state (normalize_url w start_url [])"
  have ok: "graph_ok (st_G ?s)" by (simp add: initial_state_def DiGraph_def graph_ok_def)
  from crawl_loop_graph [OF ok, of w c ?d]
  show ?thesis
    unfolding crawl_graph_def crawl_run_def run_crawled_def Let_def by blast
qed

text \<open>
  C3, as the code has it. The seed is not tested for its scheme. When \<^verbatim>\<open>urlparse\<close> accepts
  the normalized seed, the call returns a graph, and when moreover the budget allows one
  page and robots.txt does not forbid the seed, the seed is the first page crawled and a
  node of the graph, whatever its scheme. When \<^verbatim>\<open>urlparse\<close> raises on the seed, the call
  raises \<^verbatim>\<open>ValueError\<close> before the loop. A page whose request or parsing fails is crawled
  like a page without links.
\<close>

theorem crawl_absorbs_failures:
  "(url_parses w (normalize_url w start_url [])
      \<longrightarrow> build_website_graph w start_url c = Inr (crawl_graph w start_url c)
          \<and> (0 < max_pages c \<and> 0 \<le> max_depth c
               \<and> allowed_by_robots w (normalize_url w start_url [])
              \<longrightarrow> take 1 (run_crawled w start_url c) = [normalize_url w start_url []]
                  \<and> normalize_url w start_url [] \<in> set (nodes (crawl_graph w start_url c))))
   \<and> (\<not> url_parses w (normalize_url w start_url [])
      \<longrightarrow> build_website_graph w start_url c = Inl ValueError)
   \<and> (http_get w u = RequestFailed \<or> http_get w u = ParseFailed
      \<longrightarrow> build_website_graph (w\<lparr>http_get := (http_get w)(u := Anchors [])\<rparr>) start_url c
          = build_website_graph w start_url c)"
proof (intro conjI impI)
  assume "url_parses w (normalize_url w start_url [])"
  then show "build_website_graph w start_url c = Inr (crawl_graph w start_url c)"
    by (rule build_website_graph_parses)
next
  assume "0 < max_pages c \<and> 0 \<le> max_depth c \<and> allowed_by_robots w (normalize_url w start_url [])"
  then show t: "take 1 (run_crawled w start_url c) = [normalize_url w start_url []]"
    using seed_is_crawled by blast
  have "normalize_url w start_url [] \<in> set (take 1 (run_crawled w start_url c))"
    unfolding t by simp
  then have "normalize_url w start_url [] \<in> set (run_crawled w start_url c)"
    by (rule in_set_takeD)
  then show "normalize_url w start_url [] \<in> set (nodes (crawl_graph w start_url c))"
    using crawled_are_nodes by blast
next
  assume "\<not> url_parses w (normalize_url w start_url [])"
  then show "build_website_graph w start_url c = Inl ValueError"
    by (rule build_website_graph_raises)
next
  let ?w' = "w\<lparr>http_get := (http_get w)(u := Anchors [])\<rparr>"
  assume "http_get w u = RequestFailed \<or> http_get w u = ParseFailed"
  then have "same_answers (st_seen (crawl_run w start_url c)) w ?w'"
    by (rule same_answers_failed_page)
  then have "crawl_run ?w' start_url c = crawl_run w start_url c"
    by (rule crawl_run_cong)
  then have "crawl_graph ?w' start_url c = crawl_graph w start_url c"
    by (simp add: crawl_graph_def)
  moreover have "normalize_url ?w' start_url [] = normalize_url w start_url []"
    by (simp add: normalize_url_seed)
  ultimately show "build_website_graph ?w' start_url c = build_website_graph w start_url c"
    by (simp add: build_website_graph_def Let_def)
qed

text \<open>
  C3 as the claim has it fails: the seed \<^verbatim>\<open>ftp://a.com/x\<close> has no valid scheme, and the
  call does not raise: the seed is crawled and is a node of the graph returned.
\<close>

theorem invalid_seed_counterexample:
  "\<not> is_valid_scheme offline ''ftp://a.com/x''
   \<and> build_website_graph offline ''ftp://a.com/x'' shallow
      = Inr \<lparr>directed = True, nodes = [''ftp://a.com/x''], edges = []\<rparr>
   \<and> run_crawled offline ''ftp://a.com/x'' shallow = [''ftp://a.com/x'']"
  by code_simp

theorem crawl_absorbs_failures_witness:
  "url_parses offline (normalize_url offline ''ftp://a.com/x'' [])
   \<and> \<not> is_valid_scheme offline ''ftp://a.com/x''
   \<and> 0 < max_pages shallow \<and> 0 \<le> max_depth shallow
   \<and> allowed_by_robots offline (normalize_url offline ''ftp://a.com/x'' [])
   \<and> build_website_graph offline ''ftp://a.com/x'' shallow
      = Inr (crawl_graph offline ''ftp://a.com/x'' shallow)
   \<and> take 1 (run_crawled offline ''ftp://a.com/x'' shallow) = [''ftp://a.com/x'']
   \<and> ''ftp://a.com/x'' \<in> set (nodes (crawl_graph offline ''ftp://a.com/x'' shallow))
   \<and> \<not> url_parses offline (normalize_url offline ''http://[::1'' [])
   \<and> build_website_graph offline ''http://[::1'' shallow = Inl ValueError
   \<and> http_get offline ''ftp://a.com/x'' = RequestFailed
   \<and> build_website_graph
        (offline\<lparr>http_get := (http_get offline)(''ftp://a.com/x'' := Anchors [])\<rparr>)
        ''ftp://a.com/x'' shallow
      = build_website_graph offline ''ftp://a.com/x'' shallow"
proof -
  have n: "normalize_url offline ''ftp://a.com/x'' [] = ''ftp://a.com/x''"
    by code_simp
  have p: "url_parses offline (normalize_url offline ''ftp://a.com/x'' [])"
    by code_simp
  have h1: "0 < max_pages shallow \<and> 0 \<le> max_depth shallow
      \<and> allowed_by_robots offline (normalize_url offline ''ftp://a.com/x'' [])"
    by code_simp
  have h2: "http_get offline ''ftp://a.com/x'' = RequestFailed"
    by (simp add: offline_def absolute_world_def)
  have v: "\<not> is_valid_scheme offline ''ftp://a.com/x''"
    by code_simp
  have q: "\<not> url_parses offline (normalize_url offline ''http://[::1'' [])"
    by code_simp
  from crawl_absorbs_failures [of offline "''ftp://a.com/x''" shallow "''ftp://a.com/x''"] p h1 h2
  have a: "build_website_graph offline ''ftp://a.com/x'' shallow
        = Inr (crawl_graph offline ''ftp://a.com/x'' shallow)
      \<and> take 1 (run_crawled offline ''ftp://a.com/x'' shallow)
          = [normalize_url offline ''ftp://a.com/x'' []]
      \<and> normalize_url offline ''ftp://a.com/x'' []
          \<in> set (nodes (crawl_graph offline ''ftp://a.com/x'' shallow))
      \<and> build_website_graph
          (offline\<lparr>http_get := (http_get offline)(''ftp://a.com/x'' := Anchors [])\<rparr>)
          ''ftp://a.com/x'' shallow
        = build_website_graph offline ''ftp://a.com/x'' shallow"
    by blast
  from crawl_absorbs_failures [of offline "''http://[::1''" shallow] q
  have b: "build_website_graph offline ''http://[::1'' shallow = Inl ValueError"
    by blast
  from a b p h1 h2 v q show ?thesis unfolding n by blast
qed

subsection \<open>The graph without nodes\<close>

lemma build_robots_blocked:
  assumes "robots_can_fetch w (normalize_url w start_url []) = Some False"
  shows "crawl_graph w start_url c = DiGraph"
proof -
  let ?u = "normalize_url w start_url []"
  let ?d = "url_netloc w ?u"
  let ?s = "initial_state ?u"
  have na: "\<not> allowed_by_robots w ?u" using assms by (simp add: allowed_by_robots_def)
  have "st_G (crawl_loop w c ?d ?s) = DiGraph"
  proof (cases "st_pages_crawled ?s < max_pages c")
    case False
    then show ?thesis by (simp add: crawl_loop_stop) (simp add: initial_state_def)
  next
    case True
    have q: "st_q ?s = (?u, 0) # []" by (simp add: initial_state_def)
    have "crawl_loop w c ?d ?s = crawl_loop w c ?d (crawl_body w c ?d ?u 0 (?s\<lparr>st_q := []\<rparr>))"
      using q True by (rule crawl_loop_step)
    also have "crawl_body w c ?d ?u 0 (?s\<lparr>st_q := []\<rparr>) = ?s\<lparr>st_q := []\<rparr>"
      using na by (simp add: crawl_body_skip)
    also have "crawl_loop w c ?d (?s\<lparr>st_q := []\<rparr>) = ?s\<lparr>st_q := []\<rparr>"
      by (simp add: crawl_loop_stop)
    finally show ?thesis by (simp add: initial_state_def)
  qed
  then show ?thesis by (simp add: crawl_graph_def crawl_run_def Let_def)
qed

lemma build_blocked: "crawl_graph blocked ''http://a.com/'' shallow = DiGraph"
  by (rule build_robots_blocked) (simp add: blocked_def absolute_world_def)

lemma call_blocked: "build_website_graph blocked ''http://a.com/'' shallow = Inr DiGraph"
proof -
  have "url_parses blocked (normalize_url blocked ''http://a.com/'' [])"
    by code_simp
  then show ?thesis using build_blocked by (simp add: build_website_graph_parses)
qed

lemma classify_never_undetermined:
  "classify_graph lib g \<noteq> Inr ''Directed Graph (connectivity not determined)''"
  by (auto simp: classify_graph_def classify_directed_def nx_is_strongly_connected_def
      nx_is_weakly_connected_def nx_is_connected_def
      split: sum.splits py_exc.splits bool.splits if_splits)

text \<open>
  C2, on the code. For the directed graph without nodes, which the crawler returns when
  robots.txt forbids the seed, \<open>classify_graph\<close> raises: \<^verbatim>\<open>nx.is_strongly_connected\<close>
  raises \<^verbatim>\<open>NetworkXPointlessConcept\<close>, which \<^verbatim>\<open>except nx.NetworkXError\<close> does not catch.
  Only the undirected branch has the test that answers \<^verbatim>\<open>Empty Graph\<close>.
\<close>

theorem classify_empty_digraph_raises:
  "build_website_graph blocked ''http://a.com/'' shallow = Inr DiGraph
   \<and> classify_graph lib (crawl_graph blocked ''http://a.com/'' shallow)
     = Inl NetworkXPointlessConcept
   \<and> classify_graph lib DiGraph = Inl NetworkXPointlessConcept
   \<and> classify_graph lib Graph = Inr ''Empty Graph''"
  unfolding build_blocked call_blocked
  by (simp add: classify_graph_def classify_directed_def nx_is_strongly_connected_def
      DiGraph_def Graph_def)

lemma graph_stats_average:
  "graph_stats lib g = Inr st \<Longrightarrow>
   average_degree st
     = (if number_of_nodes g = 0 then 0
        else of_nat (sum_of_degrees g) / of_nat (number_of_nodes g))"
  by (auto simp: graph_stats_def Let_def split: sum.splits)

lemma graph_stats_empty_undirected:
  "graph_stats lib Graph
     = Inr \<lparr>classification = ''Empty Graph'', stat_nodes = 0, stat_edges = 0, average_degree = 0\<rparr>"
  by (simp add: graph_stats_def classify_graph_def Graph_def number_of_nodes_def
      number_of_edges_def)

lemma wd_graph_stats_no_nodes: "nodes g = [] \<Longrightarrow> \<exists>e. wd_graph_stats lib g = Inl e"
  by (simp add: wd_graph_stats_def wd_classify_graph_def nx_is_connected_def)

text \<open>
  C6, on the code. \<open>graph_stats\<close> computes the average with its guard against a
  division by zero and then raises, because \<open>classify_graph\<close> does. \<open>graph_stats\<close> of
  \<^verbatim>\<open>web_diver.py\<close> raises in the same way, and its division has no guard.
\<close>

theorem graph_stats_empty_graph_raises:
  "build_website_graph blocked ''http://a.com/'' shallow = Inr DiGraph
   \<and> graph_stats lib (crawl_graph blocked ''http://a.com/'' shallow)
     = Inl NetworkXPointlessConcept
   \<and> graph_stats lib DiGraph = Inl NetworkXPointlessConcept
   \<and> wd_graph_stats lib Graph = Inl NetworkXPointlessConcept
   \<and> py_truediv (sum_of_degrees Graph) (length (nodes Graph)) = Inl ZeroDivisionError"
  unfolding build_blocked call_blocked
  by (simp add: graph_stats_def classify_graph_def classify_directed_def
      nx_is_strongly_connected_def wd_graph_stats_def wd_classify_graph_def nx_is_connected_def
      py_truediv_def DiGraph_def Graph_def number_of_nodes_def number_of_edges_def)

end
